theory Spec2Isabelle
  imports Main "HOL-Library.Char_ord"
begin

section \<open>Bytes, strings and errors\<close>

text \<open>
  A Go \<open>[]byte\<close> and a Go \<open>string\<close> are both sequences of 8-bit bytes; the conversions
  \<open>string(b)\<close> and \<open>[]byte(s)\<close> copy and change nothing. Both are modelled as
  \<^typ>\<open>string\<close> (a list of 8-bit \<^typ>\<open>char\<close>), a \<open>nil\<close> slice as the empty list.
  An \<open>error\<close> made by \<open>errors.New(msg)\<close> is modelled by its message, and an
  \<open>error\<close>-typed variable by \<^typ>\<open>string option\<close>, \<open>nil\<close> being \<^term>\<open>None\<close>.
\<close>

definition CR :: char where
  "CR = CHR 0x0D"

definition LF :: char where
  "LF = CHR 0x0A"

definition TAB :: char where
  "TAB = CHR 0x09"

definition CRLF :: string where
  "CRLF = [CR, LF]"

definition is_digit :: "char \<Rightarrow> bool" where
  "is_digit i = (CHR ''0'' \<le> i \<and> i \<le> CHR ''9'')"

text \<open>The value of a string of decimal digits, most significant digit first.\<close>

definition digit_val :: "char \<Rightarrow> nat" where
  "digit_val c = of_char c - 48"

definition dec_val :: "string \<Rightarrow> nat" where
  "dec_val s = foldl (\<lambda>n c. 10 * n + digit_val c) 0 s"

text \<open>
  \<open>strconv.Atoi\<close> for a 64-bit \<open>int\<close>: an optional sign, then at least one decimal digit
  and nothing else; a value outside \<open>[-2^63, 2^63 - 1]\<close> is a range error. Both errors
  are \<^term>\<open>None\<close>.
\<close>

definition Atoi :: "string \<Rightarrow> int option" where
  "Atoi s =
     (let neg = (s \<noteq> [] \<and> hd s = CHR ''-'');
          t = (if s \<noteq> [] \<and> (hd s = CHR ''-'' \<or> hd s = CHR ''+'') then tl s else s)
      in if t = [] \<or> \<not> list_all is_digit t then None
         else let n = (if neg then - int (dec_val t) else int (dec_val t))
              in if n < - (2 ^ 63) \<or> 2 ^ 63 - 1 < n then None else Some n)"

section \<open>Reply records\<close>

text \<open>
  \<open>type reply struct { origin, type_, length, content []byte }\<close>. The fields \<open>type_\<close> and
  \<open>length\<close> are named \<open>rtype\<close> and \<open>rlength\<close> here.
\<close>

record reply =
  origin :: string
  rtype :: string
  rlength :: string
  content :: string

definition newReply :: reply where
  "newReply = \<lparr>origin = [], rtype = [], rlength = [], content = []\<rparr>"

definition Length :: "reply \<Rightarrow> int option" where
  "Length r = Atoi (rlength r)"

section \<open>The response parser\<close>

datatype feedStatus =
    feedInit
  | feedStar
  | feedReply
  | feedReplyType
  | feedReplyLength
  | feedReplyContent
  | feedReplyMeet0d
  | feedStatusLine
  | feedStatusLineMeet0d
  | feedFinished

text \<open>
  \<open>type Response struct\<close>. The field \<open>id\<close> is named \<open>rid\<close> (\<open>id\<close> is the identity
  function of HOL); the other fields keep their names. A reply is copied into \<open>replys\<close>
  only when its line has ended, and the next reply starts from \<open>newReply()\<close>, so no
  stored reply shares a slice that is appended to later: values are enough, no store of
  slices is needed.
\<close>

record Response =
  rid :: string
  status :: string
  err :: "string option"
  replys :: "reply list"
  buf :: string
  feedStatus :: feedStatus
  parenthesisCount :: int
  reply :: reply

definition NewResponse :: Response where
  "NewResponse =
     \<lparr>rid = [], status = [], err = None, replys = [], buf = [], feedStatus = feedInit,
      parenthesisCount = 0, reply = newReply\<rparr>"

text \<open>\<open>strings.SplitN(s, " ", 2)\<close>: one piece without a space, else the text before the
  first space and everything after it.\<close>

definition SplitN2 :: "string \<Rightarrow> string list" where
  "SplitN2 s =
     (case dropWhile (\<lambda>c. c \<noteq> CHR '' '') s of
        [] \<Rightarrow> [s]
      | _ # rest \<Rightarrow> [takeWhile (\<lambda>c. c \<noteq> CHR '' '') s, rest])"

text \<open>
  The body of the loop of \<open>Response.Feed\<close> for one byte \<open>i\<close>: the updated receiver and,
  where the source executes a \<open>return\<close>, the returned pair.
\<close>

definition Feed_byte :: "Response \<Rightarrow> char \<Rightarrow> Response \<times> (bool \<times> string option) option" where
  "Feed_byte r i =
     (case feedStatus r of
        feedInit \<Rightarrow>
          if i = CHR ''*'' then (r\<lparr>feedStatus := feedStar\<rparr>, None)
          else (r\<lparr>feedStatus := feedStatusLine, buf := buf r @ [i]\<rparr>, None)
      | feedStar \<Rightarrow>
          if i \<noteq> CHR '' '' then
            (r\<lparr>feedStatus := feedReply, reply := newReply\<lparr>origin := [i]\<rparr>\<rparr>, None)
          else (r, None)
      | feedReply \<Rightarrow>
          if i = CR then (r\<lparr>feedStatus := feedReplyMeet0d\<rparr>, None)
          else if i = CHR ''('' then
            (r\<lparr>feedStatus := feedReplyType, reply := (reply r)\<lparr>origin := origin (reply r) @ [i]\<rparr>\<rparr>, None)
          else (r\<lparr>reply := (reply r)\<lparr>origin := origin (reply r) @ [i]\<rparr>\<rparr>, None)
      | feedReplyType \<Rightarrow>
          (let r1 =
             (if i = CHR '')'' then r\<lparr>feedStatus := feedReply\<rparr>
              else if i = CHR '' '' then
                (if length (rtype (reply r)) > 0 then r\<lparr>feedStatus := feedReplyLength\<rparr> else r)
              else r\<lparr>reply := (reply r)\<lparr>rtype := rtype (reply r) @ [i]\<rparr>\<rparr>)
           in (r1\<lparr>reply := (reply r1)\<lparr>origin := origin (reply r1) @ [i]\<rparr>\<rparr>, None))
      | feedReplyLength \<Rightarrow>
          (let r1 = r\<lparr>reply := (reply r)\<lparr>origin := origin (reply r) @ [i]\<rparr>\<rparr>;
               r2 = (if i = LF then r1\<lparr>feedStatus := feedReplyContent\<rparr> else r1);
               r3 = (if is_digit i
                     then r2\<lparr>reply := (reply r2)\<lparr>rlength := rlength (reply r2) @ [i]\<rparr>\<rparr> else r2)
           in (r3, None))
      | feedReplyContent \<Rightarrow>
          (let r1 = r\<lparr>reply := (reply r)\<lparr>origin := origin (reply r) @ [i],
                                     content := content (reply r) @ [i]\<rparr>\<rparr>
           in case Length (reply r1) of
                None \<Rightarrow>
                  (r1, Some (False, Some ''Parse response error, reply need a valid length number''))
              | Some n \<Rightarrow>
                  if int (length (content (reply r1))) = n
                  then (r1\<lparr>feedStatus := feedReply\<rparr>, None) else (r1, None))
      | feedReplyMeet0d \<Rightarrow>
          if i = LF then
            (r\<lparr>feedStatus := feedInit, replys := replys r @ [reply r], buf := []\<rparr>, None)
          else
            (r\<lparr>feedStatus := feedReply, reply := (reply r)\<lparr>origin := origin (reply r) @ [i]\<rparr>\<rparr>, None)
      | feedStatusLine \<Rightarrow>
          if i = CR then (r\<lparr>feedStatus := feedStatusLineMeet0d\<rparr>, None)
          else (r\<lparr>buf := buf r @ [i]\<rparr>, None)
      | feedStatusLineMeet0d \<Rightarrow>
          if i = LF then
            (let array = SplitN2 (buf r);
                 r1 = r\<lparr>feedStatus := feedFinished\<rparr>;
                 r2 = (if length array > 0 then r1\<lparr>rid := array ! 0\<rparr> else r1);
                 r3 = (if length array > 1 then r2\<lparr>status := array ! 1\<rparr> else r2);
                 r4 = (if length (status r3) < 3 \<or> take 3 (status r3) \<noteq> ''OK ''
                       then r3\<lparr>err := Some (status r3)\<rparr> else r3)
             in (r4, Some (True, None)))
          else (r\<lparr>feedStatus := feedStatusLine, buf := buf r @ [CR, i]\<rparr>, None)
      | feedFinished \<Rightarrow> (r, Some (True, Some ''Need no more feed'')))"

text \<open>
  \<open>func (r *Response) Feed(input []byte) (bool, error)\<close>: the loop over the bytes of the
  chunk. The receiver is mutated in place, so the model returns it with the result;
  falling off the end of the chunk returns \<open>(false, nil)\<close>.
\<close>

fun Feed :: "Response \<Rightarrow> string \<Rightarrow> Response \<times> bool \<times> string option" where
  "Feed r [] = (r, False, None)"
| "Feed r (i # input) =
     (case Feed_byte r i of
        (r', None) \<Rightarrow> Feed r' input
      | (r', Some ret) \<Rightarrow> (r', ret))"

text \<open>Calling \<open>Feed\<close> on every chunk of a list in order, whatever each call returns:
  the receiver after the last call.\<close>

fun Feed_all :: "Response \<Rightarrow> string list \<Rightarrow> Response" where
  "Feed_all r [] = r"
| "Feed_all r (c # cs) = Feed_all (fst (Feed r c)) cs"

section \<open>The session\<close>

text \<open>
  The transport \<open>*tls.Conn\<close> is not code of this repository. It is modelled by what the
  client can observe of it: \<open>sent\<close> collects the argument of every \<open>Write\<close> in order,
  \<open>wscript\<close> holds the outcome of the coming \<open>Write\<close> calls (\<open>nil\<close> once it is used up)
  and \<open>rscript\<close> the outcome of the coming \<open>Read\<close> calls: an error, or the bytes
  \<open>buf[:n]\<close> that the call delivered. A transport whose script of reads is used up
  reports the error \<open>EOF\<close>. The reusable buffer \<open>c.buf\<close> only carries \<open>buf[:n]\<close> from
  \<open>Read\<close> to \<open>Feed\<close>, which copies every byte it keeps, so the buffer is not a field of
  the model, and the chunks of the script may have any length.
\<close>

record conn =
  sent :: "string list"
  wscript :: "string option list"
  rscript :: "(string + string) list"

definition conn_Write :: "conn \<Rightarrow> string \<Rightarrow> conn \<times> string option" where
  "conn_Write c b =
     (c\<lparr>sent := sent c @ [b], wscript := tl (wscript c)\<rparr>,
      case wscript c of [] \<Rightarrow> None | e # _ \<Rightarrow> e)"

record IMAPClient =
  conn :: conn
  count :: int

text \<open>
  \<open>NewClient\<close>: the greeting is read chunk by chunk until a chunk holds a newline; the
  rest of that chunk is dropped with it. The TLS handshake itself is outside the model.
\<close>

fun NewClient_loop :: "(string + string) list \<Rightarrow> string + (string + string) list" where
  "NewClient_loop [] = Inl ''EOF''"
| "NewClient_loop (Inl e # rs) = Inl e"
| "NewClient_loop (Inr chunk # rs) = (if LF \<in> set chunk then Inr rs else NewClient_loop rs)"

definition NewClient :: "conn \<Rightarrow> string + IMAPClient" where
  "NewClient c =
     (case NewClient_loop (rscript c) of
        Inl e \<Rightarrow> Inl e
      | Inr rs \<Rightarrow> Inr \<lparr>conn = c\<lparr>rscript := rs\<rparr>, count = 0\<rparr>)"

text \<open>
  \<open>c.count++\<close> on a 64-bit \<open>int\<close> wraps around; \<open>%03d\<close> prints a decimal number padded
  with zeros to at least three characters, the sign of a negative number counting as one
  of them.
\<close>

definition wrap64 :: "int \<Rightarrow> int" where
  "wrap64 x = (x + 2 ^ 63) mod 2 ^ 64 - 2 ^ 63"

fun dec :: "nat \<Rightarrow> string" where
  "dec n = (if n < 10 then [char_of (48 + n)] else dec (n div 10) @ [char_of (48 + n mod 10)])"

definition pad0 :: "nat \<Rightarrow> string \<Rightarrow> string" where
  "pad0 w s = replicate (w - length s) (CHR ''0'') @ s"

definition fmt_03d :: "int \<Rightarrow> string" where
  "fmt_03d i = (if i < 0 then CHR ''-'' # pad0 2 (dec (nat (- i))) else pad0 3 (dec (nat i)))"

text \<open>
  The read pump of \<open>Do\<close> (the \<open>for\<close> loop) over the script of reads: it returns the reads
  that are left and the response, with \<open>ret.err\<close> set where the source sets it.
\<close>

fun Do_loop :: "(string + string) list \<Rightarrow> Response \<Rightarrow> (string + string) list \<times> Response" where
  "Do_loop [] ret = ([], ret\<lparr>err := Some ''EOF''\<rparr>)"
| "Do_loop (Inl e # rs) ret = (rs, ret\<lparr>err := Some e\<rparr>)"
| "Do_loop (Inr chunk # rs) ret =
     (case Feed ret chunk of
        (ret', isFinished, Some e) \<Rightarrow> (rs, ret'\<lparr>err := Some e\<rparr>)
      | (ret', isFinished, None) \<Rightarrow> if isFinished then (rs, ret') else Do_loop rs ret')"

definition Do :: "IMAPClient \<Rightarrow> string \<Rightarrow> IMAPClient \<times> Response" where
  "Do c cmd =
     (let count' = wrap64 (count c + 1);
          line = CHR ''a'' # fmt_03d count' @ '' '' @ cmd @ CRLF;
          ret = NewResponse;
          (conn1, werr) = conn_Write (conn c) line
      in case werr of
           Some e \<Rightarrow> (c\<lparr>conn := conn1, count := count'\<rparr>, ret\<lparr>err := Some e\<rparr>)
         | None \<Rightarrow>
             (let (rs, ret') = Do_loop (rscript conn1) ret
              in (c\<lparr>conn := conn1\<lparr>rscript := rs\<rparr>, count := count'\<rparr>, ret')))"

text \<open>Commands issued one after the other on the same session.\<close>

fun Do_seq :: "IMAPClient \<Rightarrow> string list \<Rightarrow> IMAPClient" where
  "Do_seq c [] = c"
| "Do_seq c (cmd # cmds) = Do_seq (fst (Do c cmd)) cmds"

section \<open>The operations built on \<open>Do\<close>\<close>

text \<open>
  \<open>strings.ToUpper\<close> on ASCII bytes. The source only compares \<open>ToUpper\<close> of a six-byte or
  five-byte prefix with an ASCII keyword of that length: on a prefix with a byte from
  \<open>0x80\<close> on, Go's result holds a non-ASCII byte or fewer characters than the keyword
  and differs from it, and so does this one, which leaves such bytes in place.
\<close>

definition upper_byte :: "char \<Rightarrow> char" where
  "upper_byte c = (if CHR ''a'' \<le> c \<and> c \<le> CHR ''z'' then char_of (of_char c - (32::nat)) else c)"

definition ToUpper :: "string \<Rightarrow> string" where
  "ToUpper s = map upper_byte s"

text \<open>\<open>strings.Trim(s, cutset)\<close> and \<open>strings.Split(s, sep)\<close> for a separator of one byte.\<close>

definition Trim :: "string \<Rightarrow> string \<Rightarrow> string" where
  "Trim s cutset =
     rev (dropWhile (\<lambda>c. c \<in> set cutset) (rev (dropWhile (\<lambda>c. c \<in> set cutset) s)))"

fun Split :: "string \<Rightarrow> char \<Rightarrow> string list" where
  "Split [] sep = [[]]"
| "Split (c # cs) sep =
     (if c = sep then [] # Split cs sep
      else (case Split cs sep of [] \<Rightarrow> [[c]] | w # ws \<Rightarrow> (c # w) # ws))"

text \<open>\<open>strings.Index(s, "\n")\<close>, for any single byte: the first position, or \<open>-1\<close>.\<close>

definition Index :: "string \<Rightarrow> char \<Rightarrow> int" where
  "Index s c = (if c \<in> set s then int (length (takeWhile (\<lambda>x. x \<noteq> c) s)) else - 1)"

text \<open>
  A Go function either returns or panics (an index or a slice bound out of range).
\<close>

datatype 'a outcome = Returned 'a | Panic string

text \<open>\<open>Search\<close>: the loop over the replies, then the function. A \<open>nil\<close> slice of
  strings is the empty list.\<close>

fun Search_loop :: "reply list \<Rightarrow> string list \<times> string option" where
  "Search_loop [] = ([], Some ''Invalid response'')"
| "Search_loop (rep # rest) =
     (let org = origin rep
      in if length org \<ge> 6 \<and> ToUpper (take 6 org) = ''SEARCH'' then
           (let ids = Trim (drop 6 org) [CHR '' '', TAB, LF, CR]
            in if ids = [] then ([], None) else (Split ids (CHR '' ''), None))
         else Search_loop rest)"

definition Search :: "IMAPClient \<Rightarrow> string \<Rightarrow> IMAPClient \<times> string list \<times> string option" where
  "Search c flag =
     (let (c', resp) = Do c (''SEARCH '' @ flag)
      in if err resp \<noteq> None then (c', [], err resp) else (c', Search_loop (replys resp)))"

text \<open>
  \<open>Fetch\<close>. The slice \<open>org[len(id)+1:]\<close> panics when \<open>org\<close> is exactly \<open>id\<close>; the other
  slices are guarded by the length tests before them, and \<open>body[i+1:]\<close> is always in range.
\<close>

fun Fetch_loop :: "string \<Rightarrow> reply list \<Rightarrow> (string \<times> string option) outcome" where
  "Fetch_loop id' [] = Returned ([], Some ''Invalid response'')"
| "Fetch_loop id' (rep # rest) =
     (let org = origin rep
      in if length org < length id' \<or> take (length id') org \<noteq> id' then Fetch_loop id' rest
         else if length org < length id' + 1 then Panic ''slice bounds out of range''
         else
           (let org' = drop (length id' + 1) org
            in if length org' \<ge> 5 \<and> ToUpper (take 5 org') = ''FETCH'' then
                 (let body = content rep;
                      i = Index body LF
                  in Returned (drop (nat (i + 1)) body, None))
               else Fetch_loop id' rest))"

definition Fetch :: "IMAPClient \<Rightarrow> string \<Rightarrow> string \<Rightarrow> IMAPClient \<times> (string \<times> string option) outcome" where
  "Fetch c id' arg =
     (let (c', resp) = Do c (''FETCH '' @ id' @ '' '' @ arg)
      in if err resp \<noteq> None then (c', Returned ([], err resp))
         else (c', Fetch_loop id' (replys resp)))"

definition RFC822Header :: string where
  "RFC822Header = ''rfc822.header''"

definition RFC822Text :: string where
  "RFC822Text = ''rfc822.text''"

text \<open>
  \<open>GetMessage\<close>. \<open>textproto.Reader.ReadMIMEHeader\<close> belongs to the standard library and
  is the parameter \<open>ReadMIMEHeader\<close> (an error, or the header it decodes from the bytes);
  the returned \<open>*mail.Message\<close> is the pair of the header and the bytes of the body, a
  \<open>nil\<close> message \<^term>\<open>None\<close>. Indexing \<open>replys[0]\<close> panics on an empty slice.
\<close>

definition GetMessage ::
  "(string \<Rightarrow> string + 'h) \<Rightarrow> IMAPClient \<Rightarrow> string \<Rightarrow>
     IMAPClient \<times> (('h \<times> string) option \<times> string option) outcome" where
  "GetMessage ReadMIMEHeader c id' =
     (let (c1, headerResp) = Do c (''FETCH '' @ id' @ '' '' @ RFC822Header)
      in if err headerResp \<noteq> None then (c1, Returned (None, err headerResp))
         else
           (case replys headerResp of
              [] \<Rightarrow> (c1, Panic ''index out of range [0] with length 0'')
            | rep0 # _ \<Rightarrow>
                (case ReadMIMEHeader (content rep0) of
                   Inl e \<Rightarrow> (c1, Returned (None, Some e))
                 | Inr header \<Rightarrow>
                     (let (c2, bodyResp) = Do c1 (''FETCH '' @ id' @ '' '' @ RFC822Text)
                      in if err bodyResp \<noteq> None then (c2, Returned (None, err bodyResp))
                         else
                           (case replys bodyResp of
                              [] \<Rightarrow> (c2, Panic ''index out of range [0] with length 0'')
                            | rep1 # _ \<Rightarrow>
                                (c2, Returned (Some (header, content rep1), None)))))))"

text \<open>
  A session as \<open>NewClient\<close> leaves it, no command issued yet, on a transport that will
  deliver the given reads and accept every write.
\<close>

definition session :: "string list \<Rightarrow> IMAPClient" where
  "session reads = \<lparr>conn = \<lparr>sent = [], wscript = [], rscript = map Inr reads\<rparr>, count = 0\<rparr>"

section \<open>Properties of the parser\<close>

lemma Feed_byte_no_plain_return: "Feed_byte r i = (r', Some ret) \<Longrightarrow> ret \<noteq> (False, None)"
  by (auto simp: Feed_byte_def Let_def split: feedStatus.splits if_splits option.splits)

lemma Feed_append: "Feed r xs = (r1, False, None) \<Longrightarrow> Feed r (xs @ ys) = Feed r1 ys"
proof (induction xs arbitrary: r)
  case Nil
  then show ?case by simp
next
  case (Cons i xs)
  obtain r' ret where step: "Feed_byte r i = (r', ret)" by (cases "Feed_byte r i")
  show ?case
  proof (cases ret)
    case None
    with step Cons show ?thesis by simp
  next
    case (Some a)
    with step Cons.prems have "a = (False, None)" by simp
    with step Some Feed_byte_no_plain_return show ?thesis by blast
  qed
qed

lemma Feed_returned:
  "Feed r xs = (r1, b, e) \<Longrightarrow> b \<or> e \<noteq> None \<Longrightarrow> Feed r (xs @ ys) = (r1, b, e)"
proof (induction xs arbitrary: r)
  case Nil
  then show ?case by auto
next
  case (Cons i xs)
  obtain r' ret where step: "Feed_byte r i = (r', ret)" by (cases "Feed_byte r i")
  show ?case
  proof (cases ret)
    case None
    with step Cons show ?thesis by simp
  next
    case (Some a)
    with step Cons.prems show ?thesis by simp
  qed
qed

lemma Feed_finished_state: "feedStatus r = feedFinished \<Longrightarrow> fst (Feed r xs) = r"
  by (cases xs) (simp_all add: Feed_byte_def)

lemma Feed_byte_done:
  "Feed_byte r i = (r', Some (True, e)) \<Longrightarrow> feedStatus r' = feedFinished"
  by (auto simp: Feed_byte_def Let_def split: feedStatus.splits if_splits option.splits)

lemma Feed_done: "Feed r xs = (r', True, e) \<Longrightarrow> feedStatus r' = feedFinished"
proof (induction xs arbitrary: r)
  case Nil
  then show ?case by simp
next
  case (Cons i xs)
  obtain r1 ret where step: "Feed_byte r i = (r1, ret)" by (cases "Feed_byte r i")
  show ?case
  proof (cases ret)
    case None
    with step Cons show ?thesis by simp
  next
    case (Some a)
    with step Cons.prems have "Feed_byte r i = (r', Some (True, e))" by simp
    then show ?thesis by (rule Feed_byte_done)
  qed
qed


lemma Feed_all_finished: "feedStatus r = feedFinished \<Longrightarrow> Feed_all r cs = r"
  by (induction cs) (simp_all add: Feed_finished_state)

lemma Feed_all_complete:
  "Feed r (concat cs) = (r', True, None) \<Longrightarrow> Feed_all r cs = r'"
proof (induction cs arbitrary: r)
  case Nil
  then show ?case by simp
next
  case (Cons c cs)
  obtain r1 b e where fc: "Feed r c = (r1, b, e)" by (cases "Feed r c")
  show ?case
  proof (cases "b \<or> e \<noteq> None")
    case True
    with fc have "Feed r (c @ concat cs) = (r1, b, e)" by (rule Feed_returned)
    with Cons.prems have eq: "r1 = r'" "b" "e = None" by simp_all
    from fc eq have "Feed r c = (r', True, None)" by simp
    then have "feedStatus r' = feedFinished" by (rule Feed_done)
    with fc eq show ?thesis by (simp add: Feed_all_finished)
  next
    case False
    with fc have "Feed r c = (r1, False, None)" by simp
    then have "Feed r (c @ concat cs) = Feed r1 (concat cs)" by (rule Feed_append)
    with Cons.prems have "Feed r1 (concat cs) = (r', True, None)" by simp
    then have "Feed_all r1 cs = r'" by (rule Cons.IH)
    with fc show ?thesis by simp
  qed
qed

lemma Do_loop_complete:
  "Feed r (concat cs) = (r', True, None) \<Longrightarrow> snd (Do_loop (map Inr cs) r) = r'"
proof (induction cs arbitrary: r)
  case Nil
  then show ?case by simp
next
  case (Cons c cs)
  obtain r1 b e where fc: "Feed r c = (r1, b, e)" by (cases "Feed r c")
  show ?case
  proof (cases "b \<or> e \<noteq> None")
    case True
    with fc have "Feed r (c @ concat cs) = (r1, b, e)" by (rule Feed_returned)
    with Cons.prems have eq: "r1 = r'" "b" "e = None" by simp_all
    with fc show ?thesis by simp
  next
    case False
    with fc have f: "Feed r c = (r1, False, None)" by simp
    then have "Feed r (c @ concat cs) = Feed r1 (concat cs)" by (rule Feed_append)
    with Cons.prems have "Feed r1 (concat cs) = (r', True, None)" by simp
    then have "snd (Do_loop (map Inr cs) r1) = r'" by (rule Cons.IH)
    with f show ?thesis by simp
  qed
qed

subsection \<open>Chunk boundaries\<close>

text \<open>
  Claim C1. Let \<open>bs\<close> be a byte sequence on which a fresh parser completes a response
  (\<open>Feed\<close> returns \<open>(true, nil)\<close>), and let \<open>cs\<close> be any way of cutting \<open>bs\<close> into chunks,
  empty chunks included. The read pump of \<open>Do\<close> fed the chunks in order, and \<open>Feed\<close>
  called on each chunk in order, end with the same response as one call of \<open>Feed\<close> on
  \<open>bs\<close>: the whole record is the same, so \<open>id\<close>, \<open>status\<close>, \<open>err\<close> and the list of replies
  with their \<open>origin\<close>, \<open>type_\<close> and \<open>content\<close> are.
\<close>

theorem chunk_boundary_independence:
  assumes "Feed NewResponse bs = (r, True, None)" and "concat cs = bs"
  shows "snd (Do_loop (map Inr cs) NewResponse) = r \<and> Feed_all NewResponse cs = r
         \<and> snd (Do_loop [Inr bs] NewResponse) = r \<and> Feed_all NewResponse [bs] = r"
  using assms Do_loop_complete [of NewResponse cs r] Feed_all_complete [of NewResponse cs r]
  by simp

theorem chunk_boundary_independence_witness:
  "Feed NewResponse (''* 4 FETCH (RFC822.TEXT {5}'' @ CRLF @ ''hello)'' @ CRLF @ ''a003 OK done'' @ CRLF)
     = (fst (Feed NewResponse (''* 4 FETCH (RFC822.TEXT {5}'' @ CRLF @ ''hello)'' @ CRLF @ ''a003 OK done'' @ CRLF)), True, None)
   \<and> concat [''* 4 FETCH (RFC822.TEXT {'', ''5}'' @ [CR], [LF] @ ''he'', [], ''llo)'' @ [CR], [LF] @ ''a003 OK done'' @ [CR], [LF]]
     = ''* 4 FETCH (RFC822.TEXT {5}'' @ CRLF @ ''hello)'' @ CRLF @ ''a003 OK done'' @ CRLF
   \<and> snd (Do_loop (map Inr [''* 4 FETCH (RFC822.TEXT {'', ''5}'' @ [CR], [LF] @ ''he'', [], ''llo)'' @ [CR], [LF] @ ''a003 OK done'' @ [CR], [LF]]) NewResponse)
     = fst (Feed NewResponse (''* 4 FETCH (RFC822.TEXT {5}'' @ CRLF @ ''hello)'' @ CRLF @ ''a003 OK done'' @ CRLF))
   \<and> map content (replys (Feed_all NewResponse [''* 4 FETCH (RFC822.TEXT {'', ''5}'' @ [CR], [LF] @ ''he'', [], ''llo)'' @ [CR], [LF] @ ''a003 OK done'' @ [CR], [LF]]))
     = [''hello'']"
proof -
  let ?bs = "''* 4 FETCH (RFC822.TEXT {5}'' @ CRLF @ ''hello)'' @ CRLF @ ''a003 OK done'' @ CRLF"
  let ?cs = "[''* 4 FETCH (RFC822.TEXT {'', ''5}'' @ [CR], [LF] @ ''he'', [], ''llo)'' @ [CR], [LF] @ ''a003 OK done'' @ [CR], [LF]]"
  have h1: "Feed NewResponse ?bs = (fst (Feed NewResponse ?bs), True, None)"
    by code_simp
  have h2: "concat ?cs = ?bs"
    by (simp add: CRLF_def)
  have h3: "map content (replys (fst (Feed NewResponse ?bs))) = [''hello'']"
    by code_simp
  from chunk_boundary_independence [OF h1 h2] h1 h2 h3 show ?thesis
    by simp
qed

subsection \<open>Feeding a finished response\<close>

text \<open>
  Claim C5. Once a response is in \<open>feedFinished\<close>, a call of \<open>Feed\<close> with at least one
  byte returns the error \<open>Need no more feed\<close> and leaves the response as it was: the
  replies, \<open>id\<close>, \<open>status\<close> and every other field are unchanged.
\<close>

theorem fed_past_completion:
  "feedStatus r = feedFinished \<Longrightarrow> input \<noteq> [] \<Longrightarrow>
     Feed r input = (r, True, Some ''Need no more feed'')"
  by (cases input) (simp_all add: Feed_byte_def)

theorem fed_past_completion_witness:
  "feedStatus (fst (Feed NewResponse (''a001 OK done'' @ CRLF))) = feedFinished
   \<and> ''x'' \<noteq> []
   \<and> Feed (fst (Feed NewResponse (''a001 OK done'' @ CRLF))) ''x''
       = (fst (Feed NewResponse (''a001 OK done'' @ CRLF)), True, Some ''Need no more feed'')"
proof -
  have h1: "feedStatus (fst (Feed NewResponse (''a001 OK done'' @ CRLF))) = feedFinished"
    by code_simp
  have h2: "''x'' \<noteq> []" by simp
  from fed_past_completion [OF h1 h2] h1 show ?thesis by simp
qed

subsection \<open>Literals\<close>

text \<open>
  In \<open>feedReplyContent\<close> every byte, a CR or LF as any other, goes to \<open>origin\<close> and to
  \<open>content\<close>. While fewer bytes than the parsed length are held the parser stays in
  that state; the byte that makes \<open>content\<close> as long as the parsed length moves the
  parser to \<open>feedReply\<close>, for any length from 1 on.
\<close>

lemma Length_update [simp]:
  "Length (rp\<lparr>origin := a\<rparr>) = Length rp" "Length (rp\<lparr>content := b\<rparr>) = Length rp"
  by (simp_all add: Length_def)

lemma literal_content_partial:
  "feedStatus r = feedReplyContent \<Longrightarrow> Length (reply r) = Some n \<Longrightarrow>
   int (length (content (reply r)) + length xs) < n \<Longrightarrow>
   Feed r (xs @ ys) =
     Feed (r\<lparr>reply := (reply r)\<lparr>origin := origin (reply r) @ xs,
                               content := content (reply r) @ xs\<rparr>\<rparr>) ys"
proof (induction xs arbitrary: r)
  case Nil
  then show ?case by simp
next
  case (Cons x xs)
  let ?r1 = "r\<lparr>reply := (reply r)\<lparr>origin := origin (reply r) @ [x],
                                  content := content (reply r) @ [x]\<rparr>\<rparr>"
  from Cons.prems have step: "Feed_byte r x = (?r1, None)"
    by (auto simp: Feed_byte_def Let_def)
  have "Feed ?r1 (xs @ ys) =
     Feed (?r1\<lparr>reply := (reply ?r1)\<lparr>origin := origin (reply ?r1) @ xs,
                               content := content (reply ?r1) @ xs\<rparr>\<rparr>) ys"
    using Cons.prems by (intro Cons.IH) simp_all
  with step show ?case by simp
qed

lemma literal_content_exact:
  assumes "feedStatus r = feedReplyContent" and "Length (reply r) = Some n"
    and "int (length (content (reply r)) + length xs) = n" and "xs \<noteq> []"
  shows "Feed r (xs @ ys) =
     Feed (r\<lparr>feedStatus := feedReply,
             reply := (reply r)\<lparr>origin := origin (reply r) @ xs,
                               content := content (reply r) @ xs\<rparr>\<rparr>) ys"
proof -
  from assms(4) obtain zs z where xs: "xs = zs @ [z]"
    by (metis rev_exhaust)
  let ?r1 = "r\<lparr>reply := (reply r)\<lparr>origin := origin (reply r) @ zs,
                                  content := content (reply r) @ zs\<rparr>\<rparr>"
  have "Feed r (zs @ (z # ys)) = Feed ?r1 (z # ys)"
    using assms xs by (intro literal_content_partial [where n = n]) simp_all
  moreover have "Feed_byte ?r1 z =
     (r\<lparr>feedStatus := feedReply,
             reply := (reply r)\<lparr>origin := origin (reply r) @ xs,
                               content := content (reply r) @ xs\<rparr>\<rparr>, None)"
    using assms xs by (auto simp: Feed_byte_def Let_def)
  ultimately show ?thesis using xs by simp
qed

text \<open>
  Claim C2 states that for every declared length, 0 included, exactly that many bytes
  are captured. The source appends the byte and only then compares
  \<open>len(r.reply.content)\<close> with the length, so for the length 0 the comparison first sees
  one byte and never holds: after \<open>{0}\<close> the closing parenthesis, the end of the line and
  the whole status line are taken as content, and the response is not completed.
\<close>

theorem zero_length_literal_not_closed:
  "snd (Feed NewResponse
        (''* 4 FETCH (BODY {0}'' @ CRLF @ '')'' @ CRLF @ ''a001 OK done'' @ CRLF))
     = (False, None)
   \<and> feedStatus (fst (Feed NewResponse
        (''* 4 FETCH (BODY {0}'' @ CRLF @ '')'' @ CRLF @ ''a001 OK done'' @ CRLF)))
     = feedReplyContent
   \<and> Length (reply (fst (Feed NewResponse
        (''* 4 FETCH (BODY {0}'' @ CRLF @ '')'' @ CRLF @ ''a001 OK done'' @ CRLF))))
     = Some 0
   \<and> content (reply (fst (Feed NewResponse
        (''* 4 FETCH (BODY {0}'' @ CRLF @ '')'' @ CRLF @ ''a001 OK done'' @ CRLF))))
     = '')'' @ CRLF @ ''a001 OK done'' @ CRLF
   \<and> replys (fst (Feed NewResponse
        (''* 4 FETCH (BODY {0}'' @ CRLF @ '')'' @ CRLF @ ''a001 OK done'' @ CRLF)))
     = []"
  by code_simp

text \<open>
  In \<open>feedReplyLength\<close> every byte up to the newline goes to \<open>origin\<close>, and those that
  are decimal digits also to \<open>length\<close>; the others (the braces, the CR) are skipped.
\<close>

lemma length_segment:
  "feedStatus r = feedReplyLength \<Longrightarrow> LF \<notin> set tok \<Longrightarrow>
   Feed r (tok @ LF # ys) =
     Feed (r\<lparr>feedStatus := feedReplyContent,
             reply := (reply r)\<lparr>origin := origin (reply r) @ tok @ [LF],
                               rlength := rlength (reply r) @ filter is_digit tok\<rparr>\<rparr>) ys"
proof (induction tok arbitrary: r)
  case Nil
  have "\<not> is_digit LF" by (simp add: is_digit_def LF_def)
  with Nil show ?case by (cases r) (simp add: Feed_byte_def Let_def)
next
  case (Cons x tok)
  let ?r1 = "(if is_digit x
     then r\<lparr>reply := (reply r)\<lparr>origin := origin (reply r) @ [x], rlength := rlength (reply r) @ [x]\<rparr>\<rparr>
     else r\<lparr>reply := (reply r)\<lparr>origin := origin (reply r) @ [x]\<rparr>\<rparr>)"
  from Cons.prems have step: "Feed_byte r x = (?r1, None)"
    by (auto simp: Feed_byte_def Let_def)
  have "Feed ?r1 (tok @ LF # ys) =
     Feed (?r1\<lparr>feedStatus := feedReplyContent,
             reply := (reply ?r1)\<lparr>origin := origin (reply ?r1) @ tok @ [LF],
                               rlength := rlength (reply ?r1) @ filter is_digit tok\<rparr>\<rparr>) ys"
    using Cons.prems by (intro Cons.IH) simp_all
  with step show ?case by simp
qed

text \<open>
  Claim C4, as amended. When the digits gathered by the end of the length segment do not
  parse as an \<open>int\<close> (there is none, or the number is beyond the range), the first byte
  fed after the newline makes \<open>Feed\<close> return
  \<open>(false, "Parse response error, reply need a valid length number")\<close>, and the list of
  replies is as it was before the segment: the reply under construction is not appended.
\<close>

theorem invalid_literal_length:
  assumes "feedStatus r = feedReplyLength" and "LF \<notin> set tok"
    and "Atoi (rlength (reply r) @ filter is_digit tok) = None"
  shows "snd (Feed r (tok @ LF # b # rest))
           = (False, Some ''Parse response error, reply need a valid length number'')
         \<and> replys (fst (Feed r (tok @ LF # b # rest))) = replys r"
proof -
  let ?r1 = "r\<lparr>feedStatus := feedReplyContent,
             reply := (reply r)\<lparr>origin := origin (reply r) @ tok @ [LF],
                               rlength := rlength (reply r) @ filter is_digit tok\<rparr>\<rparr>"
  have "Feed r (tok @ LF # b # rest) = Feed ?r1 (b # rest)"
    using assms(1,2) by (rule length_segment)
  moreover have "snd (Feed ?r1 (b # rest))
           = (False, Some ''Parse response error, reply need a valid length number'')
         \<and> replys (fst (Feed ?r1 (b # rest))) = replys r"
    using assms(3) by (simp add: Feed_byte_def Let_def Length_def)
  ultimately show ?thesis by simp
qed

theorem invalid_literal_length_witness:
  "feedStatus (fst (Feed NewResponse ''* 4 FETCH (BODY '')) = feedReplyLength
   \<and> LF \<notin> set (''{abc}'' @ [CR])
   \<and> Atoi (rlength (reply (fst (Feed NewResponse ''* 4 FETCH (BODY ''))) @ filter is_digit (''{abc}'' @ [CR])) = None
   \<and> snd (Feed (fst (Feed NewResponse ''* 4 FETCH (BODY '')) ((''{abc}'' @ [CR]) @ LF # CHR ''h'' # ''ello''))
       = (False, Some ''Parse response error, reply need a valid length number'')
   \<and> replys (fst (Feed (fst (Feed NewResponse ''* 4 FETCH (BODY '')) ((''{abc}'' @ [CR]) @ LF # CHR ''h'' # ''ello''))) = []"
proof -
  let ?r = "fst (Feed NewResponse ''* 4 FETCH (BODY '')"
  have h1: "feedStatus ?r = feedReplyLength" by code_simp
  have h2: "LF \<notin> set (''{abc}'' @ [CR])" by code_simp
  have h3: "Atoi (rlength (reply ?r) @ filter is_digit (''{abc}'' @ [CR])) = None" by code_simp
  have h4: "replys ?r = []" by code_simp
  from invalid_literal_length [OF h1 h2 h3, of "CHR ''h''" "''ello''"] h1 h2 h3 h4
  show ?thesis by metis
qed

text \<open>
  The claim as stated speaks of a non-numeric token. The token \<open>{5x}\<close> is not a number,
  but its only digit is kept as the length: the parser does not fail and captures five
  bytes.
\<close>

theorem invalid_literal_length_counterexample:
  "\<not> list_all is_digit ''{5x}''
   \<and> snd (Feed NewResponse
        (''* 4 FETCH (BODY {5x}'' @ CRLF @ ''hello)'' @ CRLF @ ''a001 OK done'' @ CRLF))
       = (True, None)
   \<and> map content (replys (fst (Feed NewResponse
        (''* 4 FETCH (BODY {5x}'' @ CRLF @ ''hello)'' @ CRLF @ ''a001 OK done'' @ CRLF))))
       = [''hello'']"
  by code_simp

subsection \<open>A carriage return inside a reply\<close>

text \<open>
  Claim C6 states that in \<open>feedReplyMeet0d\<close> a byte other than LF returns the parser to
  \<open>feedReply\<close> with the CR and the byte appended to \<open>origin\<close>. The source appends the
  byte only; the CR, which was not appended on entering \<open>feedReplyMeet0d\<close> either, is
  lost. The status line, in \<open>feedStatusLineMeet0d\<close>, does append both. For the reply
  line \<open>a\<close>, CR, \<open>b\<close> the recorded \<open>origin\<close> is \<open>ab\<close>.
\<close>

theorem reply_cr_not_restored:
  "snd (Feed NewResponse (''* a'' @ [CR] @ ''b'' @ CRLF @ ''a001 OK x'' @ CRLF)) = (True, None)
   \<and> map origin (replys (fst (Feed NewResponse
        (''* a'' @ [CR] @ ''b'' @ CRLF @ ''a001 OK x'' @ CRLF)))) = [''ab'']
   \<and> ''ab'' \<noteq> ''a'' @ [CR] @ ''b''
   \<and> status (fst (Feed NewResponse (''a001 OK a'' @ [CR] @ ''b'' @ CRLF))) = ''OK a'' @ [CR] @ ''b''"
  by code_simp

subsection \<open>The status line\<close>

lemma Feed_byte_keeps:
  "Feed_byte r i = (r', None) \<Longrightarrow> status r' = status r \<and> err r' = err r"
  by (auto simp: Feed_byte_def Let_def split: feedStatus.splits if_splits option.splits)

lemma SplitN2_cases:
  obtains (one) "SplitN2 s = [s]" and "\<forall>x\<in>set s. x \<noteq> CHR '' ''"
  | (two) rest where "SplitN2 s = [takeWhile (\<lambda>c. c \<noteq> CHR '' '') s, rest]"
      and "takeWhile (\<lambda>c. c \<noteq> CHR '' '') s @ CHR '' '' # rest = s"
proof (cases "dropWhile (\<lambda>c. c \<noteq> CHR '' '') s")
  case Nil
  have "SplitN2 s = [s]" unfolding SplitN2_def Nil by simp
  moreover from Nil have "\<forall>x\<in>set s. x \<noteq> CHR '' ''" by (simp add: dropWhile_eq_Nil_conv)
  ultimately show ?thesis by (rule one)
next
  case (Cons a rest)
  then have "a = CHR '' ''" using hd_dropWhile [of "\<lambda>c. c \<noteq> CHR '' ''" s] by auto
  have "takeWhile (\<lambda>c. c \<noteq> CHR '' '') s @ dropWhile (\<lambda>c. c \<noteq> CHR '' '') s = s"
    by (rule takeWhile_dropWhile_id)
  then have b: "takeWhile (\<lambda>c. c \<noteq> CHR '' '') s @ CHR '' '' # rest = s"
    unfolding Cons \<open>a = CHR '' ''\<close> .
  have "SplitN2 s = [takeWhile (\<lambda>c. c \<noteq> CHR '' '') s, rest]"
    unfolding SplitN2_def Cons by simp
  then show ?thesis using b by (rule two)
qed

lemma OK_prefix: "take 3 s = ''OK '' \<Longrightarrow> takeWhile (\<lambda>c. c \<noteq> CHR '' '') s = ''OK''"
proof -
  assume "take 3 s = ''OK ''"
  then obtain t where "s = ''OK '' @ t" by (metis append_take_drop_id)
  then show ?thesis by simp
qed

lemma eq_takeWhile_all: "(xs = takeWhile P xs) = (\<forall>x\<in>set xs. P x)"
  by (metis takeWhile_eq_all_conv)

lemma Feed_byte_completes:
  assumes "Feed_byte r i = (r', Some (True, None))" and "status r = []" and "err r = None"
  shows "(err r' = None \<longleftrightarrow> take 3 (status r') = ''OK '')
       \<and> (err r' \<noteq> None \<longrightarrow> err r' = Some (status r'))
       \<and> rid r' = takeWhile (\<lambda>c. c \<noteq> CHR '' '') (buf r')
       \<and> status r' = drop (length (rid r') + 1) (buf r')"
proof -
  from assms(1) have st: "feedStatus r = feedStatusLineMeet0d" and lf: "i = LF"
    by (auto simp: Feed_byte_def Let_def split: feedStatus.splits if_splits option.splits)
  show ?thesis
  proof (cases "buf r" rule: SplitN2_cases)
    case one
    note a = one(1) and b = one(2)
    from assms st lf a have "r' = r\<lparr>feedStatus := feedFinished, rid := buf r, err := Some []\<rparr>"
      by (simp add: Feed_byte_def Let_def)
    then have "rid r' = buf r" "status r' = []" "err r' = Some []" "buf r' = buf r"
      using assms(2) by simp_all
    with b show ?thesis by (simp add: eq_takeWhile_all)
  next
    case (two rest)
    note a = two(1) and b = two(2)
    let ?t = "takeWhile (\<lambda>c. c \<noteq> CHR '' '') (buf r)"
    have "drop (Suc (length ?t)) (?t @ CHR '' '' # rest) = rest" by simp
    then have d: "drop (Suc (length ?t)) (buf r) = rest" unfolding b .
    show ?thesis
    proof (cases "length rest < 3 \<or> take 3 rest \<noteq> ''OK ''")
      case True
      with assms st lf a
      have "r' = r\<lparr>feedStatus := feedFinished, rid := ?t, status := rest, err := Some rest\<rparr>"
        by (simp add: Feed_byte_def Let_def)
      then have facts: "rid r' = ?t" "status r' = rest" "err r' = Some rest" "buf r' = buf r"
        by simp_all
      have ne: "take 3 rest \<noteq> ''OK ''"
      proof
        assume e: "take 3 rest = ''OK ''"
        then have "length (take 3 rest) = 3" by simp
        then have "\<not> length rest < 3" by simp
        with True e show False by simp
      qed
      from ne facts d show ?thesis by simp
    next
      case False
      with assms st lf a
      have "r' = r\<lparr>feedStatus := feedFinished, rid := ?t, status := rest\<rparr>"
        by (simp add: Feed_byte_def Let_def)
      then have "rid r' = ?t" "status r' = rest" "err r' = None" "buf r' = buf r"
        using assms(3) by simp_all
      with False d show ?thesis by simp
    qed
  qed
qed

text \<open>
  Claim C3, as amended. For every response completed by a fresh parser, \<open>err\<close> is \<open>nil\<close>
  exactly when \<open>status\<close> begins with the three bytes \<open>OK\<close> and space; then the first
  token of \<open>status\<close> is \<open>OK\<close>. Otherwise \<open>err\<close> carries \<open>status\<close>. Here \<open>id\<close> is the
  status line up to its first space and \<open>status\<close> what follows that space (nothing, when
  the line has no space).
\<close>

theorem terminal_error:
  assumes "Feed NewResponse bs = (r, True, None)"
  shows "(err r = None \<longleftrightarrow> take 3 (status r) = ''OK '')
       \<and> (err r \<noteq> None \<longrightarrow> err r = Some (status r))
       \<and> rid r = takeWhile (\<lambda>c. c \<noteq> CHR '' '') (buf r)
       \<and> status r = drop (length (rid r) + 1) (buf r)
       \<and> (err r = None \<longrightarrow> takeWhile (\<lambda>c. c \<noteq> CHR '' '') (status r) = ''OK'')"
proof -
  have gen: "Feed r0 bs = (r, True, None) \<Longrightarrow> status r0 = [] \<Longrightarrow> err r0 = None \<Longrightarrow>
       (err r = None \<longleftrightarrow> take 3 (status r) = ''OK '')
       \<and> (err r \<noteq> None \<longrightarrow> err r = Some (status r))
       \<and> rid r = takeWhile (\<lambda>c. c \<noteq> CHR '' '') (buf r)
       \<and> status r = drop (length (rid r) + 1) (buf r)" for r0
  proof (induction bs arbitrary: r0)
    case Nil
    then show ?case by simp
  next
    case (Cons i bs)
    obtain r1 ret where step: "Feed_byte r0 i = (r1, ret)" by (cases "Feed_byte r0 i")
    show ?case
    proof (cases ret)
      case None
      with step Cons.prems have "Feed r1 bs = (r, True, None)" by simp
      moreover from step None Cons.prems have "status r1 = []" "err r1 = None"
        using Feed_byte_keeps [of r0 i r1] by simp_all
      ultimately show ?thesis by (rule Cons.IH)
    next
      case (Some a)
      with step Cons.prems(1) have "Feed_byte r0 i = (r, Some (True, None))" by simp
      then show ?thesis using Cons.prems(2,3) by (rule Feed_byte_completes)
    qed
  qed
  have "status NewResponse = []" "err NewResponse = None" by (simp_all add: NewResponse_def)
  with assms have main: "(err r = None \<longleftrightarrow> take 3 (status r) = ''OK '')
       \<and> (err r \<noteq> None \<longrightarrow> err r = Some (status r))
       \<and> rid r = takeWhile (\<lambda>c. c \<noteq> CHR '' '') (buf r)
       \<and> status r = drop (length (rid r) + 1) (buf r)" by (rule gen)
  then show ?thesis using OK_prefix [of "status r"] by blast
qed

theorem terminal_error_witness:
  "Feed NewResponse (''a004 NO mailbox not found'' @ CRLF)
     = (fst (Feed NewResponse (''a004 NO mailbox not found'' @ CRLF)), True, None)
   \<and> err (fst (Feed NewResponse (''a004 NO mailbox not found'' @ CRLF)))
       = Some (status (fst (Feed NewResponse (''a004 NO mailbox not found'' @ CRLF))))
   \<and> status (fst (Feed NewResponse (''a004 NO mailbox not found'' @ CRLF)))
       = ''NO mailbox not found''"
proof -
  let ?bs = "''a004 NO mailbox not found'' @ CRLF"
  have h1: "Feed NewResponse ?bs = (fst (Feed NewResponse ?bs), True, None)"
    by code_simp
  have h2: "status (fst (Feed NewResponse ?bs)) = ''NO mailbox not found''"
    by code_simp
  have h3: "take 3 (status (fst (Feed NewResponse ?bs))) \<noteq> ''OK ''"
    by code_simp
  from terminal_error [OF h1] h1 h2 h3 show ?thesis by blast
qed

text \<open>
  The claim as stated compares the first token of \<open>status\<close> with \<open>OK\<close>. On the line
  \<open>a001 OK\<close> that token is \<open>OK\<close>, and yet \<open>err\<close> is set: the source asks for the space
  after the keyword.
\<close>

theorem terminal_error_counterexample:
  "snd (Feed NewResponse (''a001 OK'' @ CRLF)) = (True, None)
   \<and> Split (status (fst (Feed NewResponse (''a001 OK'' @ CRLF)))) (CHR '' '') = [''OK'']
   \<and> err (fst (Feed NewResponse (''a001 OK'' @ CRLF))) = Some ''OK''"
  by code_simp

section \<open>Properties of the session\<close>

lemma digit_char: "d < 10 \<Longrightarrow> is_digit (char_of (48 + d)) \<and> digit_val (char_of (48 + d)) = d"
  for d :: nat
proof -
  assume "d < 10"
  then have "d \<in> {0,1,2,3,4,5,6,7,8,9}" by auto
  then show ?thesis by (auto simp: is_digit_def digit_val_def less_eq_char_def)
qed

lemma dec_val_snoc: "dec_val (s @ [c]) = 10 * dec_val s + digit_val c"
  by (simp add: dec_val_def)

lemma dec_digits: "list_all is_digit (dec n) \<and> dec_val (dec n) = n \<and> dec n \<noteq> []"
proof (induction n rule: dec.induct)
  case (1 n)
  show ?case
  proof (cases "n < 10")
    case True
    then show ?thesis using digit_char [of n] by (simp add: dec_val_def)
  next
    case False
    have "n mod 10 < 10" by simp
    then have d: "is_digit (char_of (48 + n mod 10))" "digit_val (char_of (48 + n mod 10)) = n mod 10"
      using digit_char [of "n mod 10"] by simp_all
    from False 1 have ih: "list_all is_digit (dec (n div 10))" "dec_val (dec (n div 10)) = n div 10"
      by simp_all
    have eq: "dec n = dec (n div 10) @ [char_of (48 + n mod 10)]"
      using False by (subst dec.simps) simp
    show ?thesis unfolding eq using d ih by (simp add: dec_val_snoc)
  qed
qed

lemma dec_val_zeros: "dec_val (replicate k (CHR ''0'') @ s) = dec_val s"
proof (induction k)
  case 0
  then show ?case by simp
next
  case (Suc k)
  have "dec_val (CHR ''0'' # t) = dec_val t" for t
    by (simp add: dec_val_def digit_val_def)
  with Suc show ?case by simp
qed

lemma fmt_03d_nonneg:
  assumes "0 \<le> i"
  shows "list_all is_digit (fmt_03d i) \<and> int (dec_val (fmt_03d i)) = i \<and> 3 \<le> length (fmt_03d i)"
proof -
  have z: "is_digit (CHR ''0'')" by (simp add: is_digit_def)
  from assms have "fmt_03d i = replicate (3 - length (dec (nat i))) (CHR ''0'') @ dec (nat i)"
    by (simp add: fmt_03d_def pad0_def)
  then show ?thesis using dec_digits [of "nat i"] assms z
    by (auto simp: dec_val_zeros list_all_iff simp del: dec.simps)
qed

lemma wrap64_id: "- (2 ^ 63) \<le> x \<Longrightarrow> x < 2 ^ 63 \<Longrightarrow> wrap64 x = x"
  by (simp add: wrap64_def)

lemma Do_count: "count (fst (Do c cmd)) = wrap64 (count c + 1)"
  by (simp add: Do_def Let_def conn_Write_def split: option.splits prod.splits)

lemma Do_sent:
  "sent (conn (fst (Do c cmd))) =
     sent (conn c) @ [CHR ''a'' # fmt_03d (wrap64 (count c + 1)) @ '' '' @ cmd @ CRLF]"
  by (simp add: Do_def Let_def conn_Write_def split: option.splits prod.splits)

lemma Do_seq_sent:
  "0 \<le> count c \<Longrightarrow> count c + int (length cmds) < 2 ^ 63 \<Longrightarrow>
   sent (conn (Do_seq c cmds)) =
     sent (conn c) @
     map (\<lambda>k. CHR ''a'' # fmt_03d (count c + int k + 1) @ '' '' @ cmds ! k @ CRLF)
       [0..<length cmds]
   \<and> count (Do_seq c cmds) = count c + int (length cmds)"
proof (induction cmds arbitrary: c)
  case Nil
  then show ?case by simp
next
  case (Cons cmd cmds)
  let ?c1 = "fst (Do c cmd)"
  from Cons.prems have w: "wrap64 (count c + 1) = count c + 1"
    by (intro wrap64_id) simp_all
  then have c1: "count ?c1 = count c + 1" by (simp add: Do_count)
  have s1: "sent (conn ?c1) = sent (conn c) @ [CHR ''a'' # fmt_03d (count c + 1) @ '' '' @ cmd @ CRLF]"
    by (simp add: Do_sent w)
  from Cons.prems c1 have "0 \<le> count ?c1" "count ?c1 + int (length cmds) < 2 ^ 63"
    by simp_all
  then have ih: "sent (conn (Do_seq ?c1 cmds)) =
     sent (conn ?c1) @
     map (\<lambda>k. CHR ''a'' # fmt_03d (count ?c1 + int k + 1) @ '' '' @ cmds ! k @ CRLF)
       [0..<length cmds]
   \<and> count (Do_seq ?c1 cmds) = count ?c1 + int (length cmds)"
    by (rule Cons.IH)
  have "[0..<length (cmd # cmds)] = 0 # map Suc [0..<length cmds]"
    by (simp add: upt_conv_Cons map_Suc_upt del: upt_Suc)
  then have "map (\<lambda>k. CHR ''a'' # fmt_03d (count c + int k + 1) @ '' '' @ (cmd # cmds) ! k @ CRLF)
       [0..<length (cmd # cmds)]
     = (CHR ''a'' # fmt_03d (count c + 1) @ '' '' @ cmd @ CRLF) #
       map (\<lambda>k. CHR ''a'' # fmt_03d (count c + 1 + int k + 1) @ '' '' @ cmds ! k @ CRLF)
       [0..<length cmds]"
    by (simp add: comp_def ac_simps del: upt_Suc)
  with ih c1 s1 show ?case by simp
qed

lemma NewClient_count: "NewClient t = Inr c \<Longrightarrow> count c = 0 \<and> sent (conn c) = sent t"
  by (auto simp: NewClient_def split: sum.splits)

text \<open>
  Claim C7. On a session made by \<open>NewClient\<close>, for every sequence of fewer than \<open>2^63\<close>
  commands (the counter is a 64-bit \<open>int\<close>), the bytes handed to the transport are, in
  order, one line per command: the letter \<open>a\<close>, the number of the command counted from 1
  in decimal digits padded with zeros to at least three, a space, the text of the command,
  CR and LF. The digits of the \<open>k\<close>-th tag denote \<open>k\<close>, so the tags start at 1 and grow
  by one with every command, and a tag is never the marker \<open>*\<close>. \<open>sent\<close> holds what was
  handed to \<open>Write\<close> also when the transport then reports a failure.
\<close>

theorem command_tags:
  assumes "NewClient t = Inr c" and "length cmds < 2 ^ 63"
  shows "sent (conn (Do_seq c cmds)) =
           sent t @
           map (\<lambda>k. CHR ''a'' # fmt_03d (int k + 1) @ '' '' @ cmds ! k @ CRLF) [0..<length cmds]
         \<and> (\<forall>k<length cmds.
               list_all is_digit (fmt_03d (int k + 1))
               \<and> dec_val (fmt_03d (int k + 1)) = k + 1
               \<and> 3 \<le> length (fmt_03d (int k + 1))
               \<and> CHR ''a'' # fmt_03d (int k + 1) \<noteq> ''*'')"
proof -
  from assms(1) have c: "count c = 0" "sent (conn c) = sent t"
    using NewClient_count by blast+
  from assms(2) have "int (length cmds) < 2 ^ 63"
    by (metis of_nat_less_iff of_nat_numeral of_nat_power)
  with c have "sent (conn (Do_seq c cmds)) =
     sent (conn c) @
     map (\<lambda>k. CHR ''a'' # fmt_03d (count c + int k + 1) @ '' '' @ cmds ! k @ CRLF)
       [0..<length cmds]"
    using Do_seq_sent [of c cmds] by simp
  with c have first: "sent (conn (Do_seq c cmds)) =
           sent t @
           map (\<lambda>k. CHR ''a'' # fmt_03d (int k + 1) @ '' '' @ cmds ! k @ CRLF) [0..<length cmds]"
    by simp
  have second: "list_all is_digit (fmt_03d (int k + 1))
               \<and> dec_val (fmt_03d (int k + 1)) = k + 1
               \<and> 3 \<le> length (fmt_03d (int k + 1))
               \<and> CHR ''a'' # fmt_03d (int k + 1) \<noteq> ''*''" for k
  proof -
    have "0 \<le> int k + 1" by simp
    from fmt_03d_nonneg [OF this] have f: "list_all is_digit (fmt_03d (int k + 1))"
      "int (dec_val (fmt_03d (int k + 1))) = int k + 1" "3 \<le> length (fmt_03d (int k + 1))"
      by blast+
    from f(2) have "dec_val (fmt_03d (int k + 1)) = k + 1" by linarith
    moreover from f(3) have "fmt_03d (int k + 1) \<noteq> []" by auto
    ultimately show ?thesis using f by simp
  qed
  from first second show ?thesis by blast
qed

theorem command_tags_witness:
  "NewClient \<lparr>sent = [], wscript = [],
       rscript = [Inr (''* OK ready'' @ CRLF), Inr (''a001 OK done'' @ CRLF),
                  Inr (''* SEARCH 1 2 3'' @ CRLF @ ''a002 OK done'' @ CRLF)]\<rparr>
     = Inr (session [''a001 OK done'' @ CRLF, ''* SEARCH 1 2 3'' @ CRLF @ ''a002 OK done'' @ CRLF])
   \<and> length [''LOGIN u p'', ''SEARCH ALL''] < 2 ^ 63
   \<and> sent (conn (Do_seq
        (session [''a001 OK done'' @ CRLF, ''* SEARCH 1 2 3'' @ CRLF @ ''a002 OK done'' @ CRLF])
        [''LOGIN u p'', ''SEARCH ALL'']))
     = [''a001 LOGIN u p'' @ CRLF, ''a002 SEARCH ALL'' @ CRLF]"
proof -
  let ?t = "\<lparr>sent = [], wscript = [],
       rscript = [Inr (''* OK ready'' @ CRLF), Inr (''a001 OK done'' @ CRLF),
                  Inr (''* SEARCH 1 2 3'' @ CRLF @ ''a002 OK done'' @ CRLF)]\<rparr>"
  let ?c = "session [''a001 OK done'' @ CRLF, ''* SEARCH 1 2 3'' @ CRLF @ ''a002 OK done'' @ CRLF]"
  let ?cmds = "[''LOGIN u p'', ''SEARCH ALL'']"
  have h1: "NewClient ?t = Inr ?c" by code_simp
  have h2: "length ?cmds < 2 ^ 63" by simp
  have e: "sent ?t @ map (\<lambda>k. CHR ''a'' # fmt_03d (int k + 1) @ '' '' @ ?cmds ! k @ CRLF)
             [0..<length ?cmds]
           = [''a001 LOGIN u p'' @ CRLF, ''a002 SEARCH ALL'' @ CRLF]"
    by code_simp
  from command_tags [OF h1 h2] have "sent (conn (Do_seq ?c ?cmds)) =
      sent ?t @ map (\<lambda>k. CHR ''a'' # fmt_03d (int k + 1) @ '' '' @ ?cmds ! k @ CRLF)
             [0..<length ?cmds]"
    by (rule conjunct1)
  then have "sent (conn (Do_seq ?c ?cmds)) = [''a001 LOGIN u p'' @ CRLF, ''a002 SEARCH ALL'' @ CRLF]"
    using e by (rule trans)
  with h1 h2 show ?thesis by blast
qed

section \<open>Properties of the operations\<close>

subsection \<open>\<open>Search\<close>\<close>

lemma Search_loop_skip:
  "\<forall>p\<in>set pre. \<not> (6 \<le> length (origin p) \<and> ToUpper (take 6 (origin p)) = ''SEARCH'') \<Longrightarrow>
   Search_loop (pre @ rest) = Search_loop rest"
  by (induction pre) (auto simp: Let_def)

lemma Split_no_sep: "sep \<notin> set w \<Longrightarrow> Split w sep = [w]"
  by (induction w) auto

lemma Split_word: "sep \<notin> set w \<Longrightarrow> Split (w @ sep # rest) sep = w # Split rest sep"
  by (induction w) auto

lemma Split_join:
  "\<forall>i\<in>set (x # xs). sep \<notin> set i \<Longrightarrow>
   Split (x @ concat (map (\<lambda>i. sep # i) xs)) sep = x # xs"
proof (induction xs arbitrary: x)
  case Nil
  then show ?case by (simp add: Split_no_sep)
next
  case (Cons y ys)
  then have "Split (y @ concat (map (\<lambda>i. sep # i) ys)) sep = y # ys" by simp
  moreover from Cons.prems have "sep \<notin> set x" by simp
  ultimately show ?case by (simp add: Split_word)
qed

lemma Trim_lead: "c \<in> set cutset \<Longrightarrow> Trim (c # s) cutset = Trim s cutset"
  by (simp add: Trim_def)

lemma Trim_id: "s \<noteq> [] \<Longrightarrow> hd s \<notin> set cutset \<Longrightarrow> last s \<notin> set cutset \<Longrightarrow> Trim s cutset = s"
proof -
  assume a: "s \<noteq> []" "hd s \<notin> set cutset" "last s \<notin> set cutset"
  then have "dropWhile (\<lambda>c. c \<in> set cutset) s = s"
    by (cases s) simp_all
  moreover from a have "dropWhile (\<lambda>c. c \<in> set cutset) (rev s) = rev s"
    by (cases "rev s") (simp_all add: last_rev [symmetric] hd_rev)
  ultimately show ?thesis by (simp add: Trim_def)
qed

lemma Trim_all: "set ws \<subseteq> set cutset \<Longrightarrow> Trim ws cutset = []"
proof -
  assume "set ws \<subseteq> set cutset"
  then have d: "dropWhile (\<lambda>c. c \<in> set cutset) ws = []"
    using dropWhile_eq_Nil_conv [of "\<lambda>c. c \<in> set cutset" ws] by blast
  show ?thesis unfolding Trim_def d by simp
qed

lemma join_ends:
  assumes "\<forall>i\<in>set (x # xs). i \<noteq> [] \<and> set i \<inter> C = {}"
  shows "x @ concat (map (\<lambda>i. sep # i) xs) \<noteq> []
       \<and> hd (x @ concat (map (\<lambda>i. sep # i) xs)) \<notin> C
       \<and> last (x @ concat (map (\<lambda>i. sep # i) xs)) \<notin> C"
  using assms
proof (induction xs arbitrary: x)
  case Nil
  then have "x \<noteq> []" "set x \<inter> C = {}" by simp_all
  then have "hd x \<notin> C" "last x \<notin> C"
    using hd_in_set [of x] last_in_set [of x] by blast+
  with \<open>x \<noteq> []\<close> show ?case by simp
next
  case (Cons y ys)
  define Y where "Y = y @ concat (map (\<lambda>i. sep # i) ys)"
  from Cons.prems have "\<forall>i\<in>set (y # ys). i \<noteq> [] \<and> set i \<inter> C = {}" by simp
  then have ih: "Y \<noteq> []" "last Y \<notin> C"
    unfolding Y_def using Cons.IH [of y] by blast+
  from Cons.prems have x: "x \<noteq> []" "set x \<inter> C = {}" by simp_all
  then have hx: "hd x \<notin> C" using hd_in_set [of x] by blast
  have eq: "x @ concat (map (\<lambda>i. sep # i) (y # ys)) = x @ sep # Y"
    by (simp add: Y_def)
  show ?case unfolding eq using x(1) hx ih by simp
qed

lemma Search_snd:
  "resp = snd (Do c (''SEARCH '' @ flag)) \<Longrightarrow> err resp = None \<Longrightarrow>
   snd (Search c flag) = Search_loop (replys resp)"
  by (cases "Do c (''SEARCH '' @ flag)") (simp add: Search_def)

lemma Search_loop_none:
  "\<forall>p\<in>set rs. \<not> (6 \<le> length (origin p) \<and> ToUpper (take 6 (origin p)) = ''SEARCH'') \<Longrightarrow>
   Search_loop rs = ([], Some ''Invalid response'')"
  by (induction rs) (auto simp: Let_def)

lemma ToUpper_SEARCH: "ToUpper ''SEARCH'' = ''SEARCH''"
  by code_simp

lemma Search_loop_ids:
  assumes "origin rep = ''SEARCH'' @ concat (map (\<lambda>i. CHR '' '' # i) ids)" and "ids \<noteq> []"
    and "\<forall>i\<in>set ids. i \<noteq> [] \<and> set i \<inter> set [CHR '' '', TAB, LF, CR] = {}"
  shows "Search_loop (rep # post) = (ids, None)"
proof -
  from assms(2) obtain x xs where ids: "ids = x # xs" by (cases ids) auto
  let ?body = "x @ concat (map (\<lambda>i. CHR '' '' # i) xs)"
  let ?cut = "[CHR '' '', TAB, LF, CR]"
  from assms(3) ids have e: "?body \<noteq> []" "hd ?body \<notin> set ?cut" "last ?body \<notin> set ?cut"
    using join_ends [of x xs "set ?cut" "CHR '' ''"] by blast+
  have "Trim (CHR '' '' # ?body) ?cut = Trim ?body ?cut"
    by (rule Trim_lead) simp
  also have "\<dots> = ?body" using e by (rule Trim_id)
  finally have t: "Trim (CHR '' '' # ?body) ?cut = ?body" .
  from assms(3) ids have "\<forall>i\<in>set (x # xs). CHR '' '' \<notin> set i" by auto
  then have s: "Split ?body (CHR '' '') = x # xs" by (rule Split_join)
  have o: "origin rep = ''SEARCH'' @ CHR '' '' # ?body" using assms(1) ids by simp
  have d: "drop 6 (origin rep) = CHR '' '' # ?body" "take 6 (origin rep) = ''SEARCH''"
    "6 \<le> length (origin rep)"
    unfolding o by simp_all
  show ?thesis
    using e(1) by (simp add: Let_def d t s ToUpper_SEARCH ids del: Trim_def)
qed

lemma Search_loop_empty:
  assumes "origin rep = ''SEARCH'' @ ws" and "set ws \<subseteq> set [CHR '' '', TAB, LF, CR]"
  shows "Search_loop (rep # post) = ([], None)"
proof -
  have d: "drop 6 (origin rep) = ws" "take 6 (origin rep) = ''SEARCH''" "6 \<le> length (origin rep)"
    unfolding assms(1) by simp_all
  from assms(2) have "Trim ws [CHR '' '', TAB, LF, CR] = []" by (rule Trim_all)
  then show ?thesis by (simp add: Let_def d ToUpper_SEARCH)
qed

text \<open>
  Claim C8. Let a \<open>SEARCH\<close> command end in a response without error, and let \<open>rep\<close> be
  its first reply whose \<open>origin\<close> begins with the keyword. If the keyword is followed by
  identifiers, each after one space, none empty and none holding a space, tab, CR or LF,
  \<open>Search\<close> returns these identifiers in order and no error. If the keyword is followed
  by nothing but such blanks, \<open>Search\<close> returns the empty sequence and no error. If no
  reply begins with the keyword, \<open>Search\<close> returns the error \<open>Invalid response\<close>.
\<close>

theorem search_result:
  assumes "resp = snd (Do c (''SEARCH '' @ flag))" and "err resp = None"
  shows "(replys resp = pre @ rep # post
          \<and> (\<forall>p\<in>set pre. \<not> (6 \<le> length (origin p) \<and> ToUpper (take 6 (origin p)) = ''SEARCH''))
          \<and> origin rep = ''SEARCH'' @ concat (map (\<lambda>i. CHR '' '' # i) ids) \<and> ids \<noteq> []
          \<and> (\<forall>i\<in>set ids. i \<noteq> [] \<and> set i \<inter> set [CHR '' '', TAB, LF, CR] = {})
          \<longrightarrow> snd (Search c flag) = (ids, None))
       \<and> (replys resp = pre @ rep # post
          \<and> (\<forall>p\<in>set pre. \<not> (6 \<le> length (origin p) \<and> ToUpper (take 6 (origin p)) = ''SEARCH''))
          \<and> origin rep = ''SEARCH'' @ ws \<and> set ws \<subseteq> set [CHR '' '', TAB, LF, CR]
          \<longrightarrow> snd (Search c flag) = ([], None))
       \<and> ((\<forall>p\<in>set (replys resp).
              \<not> (6 \<le> length (origin p) \<and> ToUpper (take 6 (origin p)) = ''SEARCH''))
          \<longrightarrow> snd (Search c flag) = ([], Some ''Invalid response''))"
proof -
  note s = Search_snd [OF assms]
  show ?thesis
  proof (intro conjI impI)
    assume a: "replys resp = pre @ rep # post
          \<and> (\<forall>p\<in>set pre. \<not> (6 \<le> length (origin p) \<and> ToUpper (take 6 (origin p)) = ''SEARCH''))
          \<and> origin rep = ''SEARCH'' @ concat (map (\<lambda>i. CHR '' '' # i) ids) \<and> ids \<noteq> []
          \<and> (\<forall>i\<in>set ids. i \<noteq> [] \<and> set i \<inter> set [CHR '' '', TAB, LF, CR] = {})"
    then have "Search_loop (pre @ rep # post) = Search_loop (rep # post)"
      by (intro Search_loop_skip) blast
    also from a have "\<dots> = (ids, None)" by (intro Search_loop_ids) blast+
    finally show "snd (Search c flag) = (ids, None)" using s a by simp
  next
    assume a: "replys resp = pre @ rep # post
          \<and> (\<forall>p\<in>set pre. \<not> (6 \<le> length (origin p) \<and> ToUpper (take 6 (origin p)) = ''SEARCH''))
          \<and> origin rep = ''SEARCH'' @ ws \<and> set ws \<subseteq> set [CHR '' '', TAB, LF, CR]"
    then have "Search_loop (pre @ rep # post) = Search_loop (rep # post)"
      by (intro Search_loop_skip) blast
    also from a have "\<dots> = ([], None)" by (intro Search_loop_empty) blast+
    finally show "snd (Search c flag) = ([], None)" using s a by simp
  next
    assume "\<forall>p\<in>set (replys resp).
              \<not> (6 \<le> length (origin p) \<and> ToUpper (take 6 (origin p)) = ''SEARCH'')"
    then have "Search_loop (replys resp) = ([], Some ''Invalid response'')"
      by (rule Search_loop_none)
    with s show "snd (Search c flag) = ([], Some ''Invalid response'')" by simp
  qed
qed

theorem search_result_witness:
  "err (snd (Do (session [''* SEARCH 1 2 3'' @ CRLF @ ''a001 OK done'' @ CRLF]) (''SEARCH '' @ ''ALL''))) = None
   \<and> map origin (replys (snd (Do (session [''* SEARCH 1 2 3'' @ CRLF @ ''a001 OK done'' @ CRLF]) (''SEARCH '' @ ''ALL''))))
       = [''SEARCH 1 2 3'']
   \<and> snd (Search (session [''* SEARCH 1 2 3'' @ CRLF @ ''a001 OK done'' @ CRLF]) ''ALL'')
       = ([''1'', ''2'', ''3''], None)
   \<and> map origin (replys (snd (Do (session [''* SEARCH'' @ CRLF @ ''a001 OK done'' @ CRLF]) (''SEARCH '' @ ''ALL''))))
       = [''SEARCH'']
   \<and> snd (Search (session [''* SEARCH'' @ CRLF @ ''a001 OK done'' @ CRLF]) ''ALL'') = ([], None)
   \<and> replys (snd (Do (session [''a001 OK done'' @ CRLF]) (''SEARCH '' @ ''ALL''))) = []
   \<and> snd (Search (session [''a001 OK done'' @ CRLF]) ''ALL'') = ([], Some ''Invalid response'')"
proof -
  let ?c1 = "session [''* SEARCH 1 2 3'' @ CRLF @ ''a001 OK done'' @ CRLF]"
  let ?c2 = "session [''* SEARCH'' @ CRLF @ ''a001 OK done'' @ CRLF]"
  let ?c3 = "session [''a001 OK done'' @ CRLF]"
  let ?rep1 = "\<lparr>origin = ''SEARCH 1 2 3'', rtype = [], rlength = [], content = []\<rparr>"
  let ?rep2 = "\<lparr>origin = ''SEARCH'', rtype = [], rlength = [], content = []\<rparr>"
  let ?ids = "[''1'', ''2'', ''3'']"
  have e1: "err (snd (Do ?c1 (''SEARCH '' @ ''ALL''))) = None" by code_simp
  have e2: "err (snd (Do ?c2 (''SEARCH '' @ ''ALL''))) = None" by code_simp
  have e3: "err (snd (Do ?c3 (''SEARCH '' @ ''ALL''))) = None" by code_simp
  have r1: "replys (snd (Do ?c1 (''SEARCH '' @ ''ALL''))) = [] @ ?rep1 # []" by code_simp
  have r2: "replys (snd (Do ?c2 (''SEARCH '' @ ''ALL''))) = [] @ ?rep2 # []" by code_simp
  have r3: "replys (snd (Do ?c3 (''SEARCH '' @ ''ALL''))) = []" by code_simp
  have o1: "origin ?rep1 = ''SEARCH'' @ concat (map (\<lambda>i. CHR '' '' # i) ?ids)" by simp
  have t1: "\<forall>i\<in>set ?ids. i \<noteq> [] \<and> set i \<inter> set [CHR '' '', TAB, LF, CR] = {}"
    by (simp add: TAB_def LF_def CR_def)
  have o2: "origin ?rep2 = ''SEARCH'' @ []" by simp
  have p: "\<forall>p\<in>set ([]::reply list).
             \<not> (6 \<le> length (origin p) \<and> ToUpper (take 6 (origin p)) = ''SEARCH'')" by simp
  have a1: "snd (Search ?c1 ''ALL'') = (?ids, None)"
    using search_result [OF refl e1, of "[]" ?rep1 "[]" ?ids] r1 o1 t1 p by blast
  have a2: "snd (Search ?c2 ''ALL'') = ([], None)"
    using search_result [OF refl e2, of "[]" ?rep2 "[]" _ "[]"] r2 o2 p by simp
  have a3: "snd (Search ?c3 ''ALL'') = ([], Some ''Invalid response'')"
    using search_result [OF refl e3] r3 by simp
  have m1: "map origin (replys (snd (Do ?c1 (''SEARCH '' @ ''ALL'')))) = [''SEARCH 1 2 3'']"
    unfolding r1 by simp
  have m2: "map origin (replys (snd (Do ?c2 (''SEARCH '' @ ''ALL'')))) = [''SEARCH'']"
    unfolding r2 by simp
  from e1 m1 a1 m2 a2 r3 a3 show ?thesis by blast
qed

subsection \<open>\<open>Fetch\<close>\<close>

lemma Fetch_loop_skip:
  "Fetch_loop id' pre = Returned ([], Some ''Invalid response'') \<Longrightarrow>
   Fetch_loop id' (pre @ rest) = Fetch_loop id' rest"
  by (induction pre) (auto simp: Let_def split: if_splits)

lemma Fetch_snd:
  "resp = snd (Do c (''FETCH '' @ id' @ '' '' @ arg)) \<Longrightarrow> err resp = None \<Longrightarrow>
   snd (Fetch c id' arg) = Fetch_loop id' (replys resp)"
  by (cases "Do c (''FETCH '' @ id' @ '' '' @ arg)") (simp add: Fetch_def)

lemma ToUpper_FETCH: "ToUpper ''FETCH'' = ''FETCH''"
  by code_simp

text \<open>
  Claim C10. Let a \<open>FETCH\<close> command end in a response without error, and let \<open>rep\<close> be
  the first reply at which the loop of \<open>Fetch\<close> stops: its \<open>origin\<close> begins with the
  identifier, and the keyword \<open>FETCH\<close> follows one byte later; the loop passes over the
  replies before it. If the \<open>content\<close> of \<open>rep\<close> holds no LF, \<open>strings.Index\<close> is \<open>-1\<close>,
  the slice starts at 0 and \<open>Fetch\<close> returns the whole \<open>content\<close> and no error.
\<close>

theorem fetch_without_newline:
  assumes "resp = snd (Do c (''FETCH '' @ id' @ '' '' @ arg))" and "err resp = None"
    and "replys resp = pre @ rep # post"
    and "Fetch_loop id' pre = Returned ([], Some ''Invalid response'')"
    and "take (length id') (origin rep) = id'"
    and "5 \<le> length (drop (length id' + 1) (origin rep))"
    and "ToUpper (take 5 (drop (length id' + 1) (origin rep))) = ''FETCH''"
    and "LF \<notin> set (content rep)"
  shows "snd (Fetch c id' arg) = Returned (content rep, None)"
proof -
  from assms(6) have len: "length id' + 1 \<le> length (origin rep)" by simp
  from assms(8) have "Index (content rep) LF = - 1" by (simp add: Index_def)
  with len assms(5,6,7) have "Fetch_loop id' (rep # post) = Returned (content rep, None)"
    by (simp add: Let_def)
  moreover have "Fetch_loop id' (pre @ rep # post) = Fetch_loop id' (rep # post)"
    using assms(4) by (rule Fetch_loop_skip)
  ultimately show ?thesis using Fetch_snd [OF assms(1,2)] assms(3) by simp
qed

theorem fetch_without_newline_witness:
  "err (snd (Do (session [''* 4 FETCH (RFC822.TEXT {5}'' @ CRLF @ ''hello)'' @ CRLF @ ''a001 OK done'' @ CRLF])
            (''FETCH '' @ ''4'' @ '' '' @ ''RFC822.TEXT''))) = None
   \<and> map content (replys (snd (Do (session [''* 4 FETCH (RFC822.TEXT {5}'' @ CRLF @ ''hello)'' @ CRLF @ ''a001 OK done'' @ CRLF])
            (''FETCH '' @ ''4'' @ '' '' @ ''RFC822.TEXT'')))) = [''hello'']
   \<and> LF \<notin> set ''hello''
   \<and> snd (Fetch (session [''* 4 FETCH (RFC822.TEXT {5}'' @ CRLF @ ''hello)'' @ CRLF @ ''a001 OK done'' @ CRLF])
            ''4'' ''RFC822.TEXT'') = Returned (''hello'', None)"
proof -
  let ?c = "session [''* 4 FETCH (RFC822.TEXT {5}'' @ CRLF @ ''hello)'' @ CRLF @ ''a001 OK done'' @ CRLF]"
  let ?rep = "\<lparr>origin = ''4 FETCH (RFC822.TEXT {5}'' @ CRLF @ ''hello)'', rtype = ''RFC822.TEXT'',
               rlength = ''5'', content = ''hello''\<rparr>"
  have h2: "err (snd (Do ?c (''FETCH '' @ ''4'' @ '' '' @ ''RFC822.TEXT''))) = None" by code_simp
  have h3: "replys (snd (Do ?c (''FETCH '' @ ''4'' @ '' '' @ ''RFC822.TEXT''))) = [] @ ?rep # []"
    by code_simp
  have h4: "Fetch_loop ''4'' [] = Returned ([], Some ''Invalid response'')" by simp
  have h5: "take (length ''4'') (origin ?rep) = ''4''" by code_simp
  have h6: "5 \<le> length (drop (length ''4'' + 1) (origin ?rep))" by code_simp
  have h7: "ToUpper (take 5 (drop (length ''4'' + 1) (origin ?rep))) = ''FETCH''" by code_simp
  have h8: "LF \<notin> set (content ?rep)" by code_simp
  have h8': "LF \<notin> set ''hello''" by code_simp
  have c: "content ?rep = ''hello''" by simp
  have m: "map content (replys (snd (Do ?c (''FETCH '' @ ''4'' @ '' '' @ ''RFC822.TEXT'')))) = [''hello'']"
    unfolding h3 by simp
  from fetch_without_newline [OF refl h2 h3 h4 h5 h6 h7 h8]
  have "snd (Fetch ?c ''4'' ''RFC822.TEXT'') = Returned (content ?rep, None)" .
  then have "snd (Fetch ?c ''4'' ''RFC822.TEXT'') = Returned (''hello'', None)"
    unfolding c .
  with h2 m h8' show ?thesis by blast
qed

subsection \<open>\<open>GetMessage\<close>\<close>

text \<open>
  Claim C9. When the header \<open>FETCH\<close> of \<open>GetMessage\<close> ends in a response without error
  and without any reply, \<open>replys[0]\<close> is out of range and \<open>GetMessage\<close> panics, whatever
  the header decoder is; on the same list of replies the loops of \<open>Search\<close> and \<open>Fetch\<close>
  return the error \<open>Invalid response\<close>.
\<close>

theorem getmessage_empty_reply_list:
  assumes "resp = snd (Do c (''FETCH '' @ id' @ '' '' @ RFC822Header))" and "err resp = None"
    and "replys resp = []"
  shows "snd (GetMessage ReadMIMEHeader c id') = Panic ''index out of range [0] with length 0''
       \<and> Search_loop (replys resp) = ([], Some ''Invalid response'')
       \<and> Fetch_loop id' (replys resp) = Returned ([], Some ''Invalid response'')"
proof -
  obtain c1 r where d: "Do c (''FETCH '' @ id' @ '' '' @ RFC822Header) = (c1, r)"
    by (cases "Do c (''FETCH '' @ id' @ '' '' @ RFC822Header)")
  with assms have "err r = None" "replys r = []" by simp_all
  with d have "snd (GetMessage ReadMIMEHeader c id') = Panic ''index out of range [0] with length 0''"
    by (simp add: GetMessage_def)
  with assms(3) show ?thesis by simp
qed

theorem getmessage_empty_reply_list_witness:
  "err (snd (Do (session [''a001 OK done'' @ CRLF]) (''FETCH '' @ ''4'' @ '' '' @ RFC822Header))) = None
   \<and> replys (snd (Do (session [''a001 OK done'' @ CRLF]) (''FETCH '' @ ''4'' @ '' '' @ RFC822Header))) = []
   \<and> snd (GetMessage (\<lambda>s. Inr s) (session [''a001 OK done'' @ CRLF]) ''4'')
       = Panic ''index out of range [0] with length 0''"
proof -
  let ?c = "session [''a001 OK done'' @ CRLF]"
  have h2: "err (snd (Do ?c (''FETCH '' @ ''4'' @ '' '' @ RFC822Header))) = None" by code_simp
  have h3: "replys (snd (Do ?c (''FETCH '' @ ''4'' @ '' '' @ RFC822Header))) = []" by code_simp
  from getmessage_empty_reply_list [OF refl h2 h3, of "\<lambda>s. Inr s"] h2 h3
  show ?thesis by blast
qed

end
